theory Spec2Isabelle
  imports Main
begin

section \<open>The INI parser of \<^verbatim>\<open>main.cpp\<close>\<close>

subsection \<open>Data model\<close>

text \<open>
  The file buffer (\<^verbatim>\<open>struct buffer\<close>, \<^verbatim>\<open>char *data; int length\<close>) is modelled by its
  contents, a list of bytes; \<^verbatim>\<open>buf.length\<close> is the length of the list and
  \<^verbatim>\<open>buf.data[i]\<close> is \<open>buf ! i\<close>. Every read of the source is guarded by
  \<^verbatim>\<open>cursor < buf.length\<close>, and so is every \<open>!\<close> below.

  A \<^verbatim>\<open>slice\<close> is the same C struct, used as a pointer into the file buffer plus a
  length. Its pointer is modelled as an offset into the buffer, \<open>None\<close> being the null
  pointer of a value-initialised slice. The C field \<^verbatim>\<open>length\<close> is called
  \<open>length_s\<close> here, the fields of \<^verbatim>\<open>ini_kv\<close> carry the suffix \<open>_kv\<close> and the
  parser's \<^verbatim>\<open>section\<close> field is \<open>section_ini\<close>, to keep them apart from each other
  and from the list functions of HOL.

  Cursor and offsets are natural numbers (the source never decrements them); the line
  counter and the slice lengths are integers, as in the source. All of them stay below
  \<open>2^31\<close> for every buffer shorter than \<open>2^31 - 1\<close> bytes, so no wrap-around is
  modelled.
\<close>

record slice =
  data :: "nat option"
  length_s :: int

record ini_kv =
  section_kv :: slice
  key_kv :: slice
  value_kv :: slice

record ini_parser =
  buf :: "char list"
  cursor :: nat
  line :: int
  section_ini :: slice
  properties :: "ini_kv list"

text \<open>
  The source reports an error by printing a message with the line counter to
  \<^verbatim>\<open>stderr\<close> and returning \<^verbatim>\<open>-1\<close>. The model returns the kind of the message and
  the line printed:
  \<^item> \<open>UnterminatedSection\<close>: \<^verbatim>\<open>Expected ']', encountered EOF instead\<close>;
  \<^item> \<open>MissingEquals\<close>: \<^verbatim>\<open>Expected '=', encountered EOL instead\<close>;
  \<^item> \<open>MissingEqualsEOF\<close>: \<^verbatim>\<open>Expected '=' after key, encountered EOF instead\<close>;
  \<^item> \<open>MissingValue\<close>: \<^verbatim>\<open>Expected value after '=', encountered EOF isntead\<close>;
  \<^item> \<open>AssertionFailure\<close>: one of the \<^verbatim>\<open>assert\<close>s of \<^verbatim>\<open>parse_kv\<close> failed and the
    program was aborted (the source includes \<^verbatim>\<open><cassert>\<close> and does not define
    \<^verbatim>\<open>NDEBUG\<close>).
  Every function of the parser mutates \<^verbatim>\<open>*ini\<close> in place, also when it fails, so each
  returns the parser state together with its return code.
\<close>

datatype error =
    UnterminatedSection int
  | MissingEquals int
  | MissingEqualsEOF int
  | MissingValue int
  | AssertionFailure

datatype result = Success | Failure error

text \<open>The bytes the scanner distinguishes.\<close>

definition CR :: char where "CR = CHR 0x0D"
definition LF :: char where "LF = CHR 0x0A"
definition TAB :: char where "TAB = CHR 0x09"
definition SPC :: char where "SPC = CHR 0x20"

text \<open>
  \<^verbatim>\<open>ini_parser ini{}\<close> in \<^verbatim>\<open>main\<close>: every field zero, the vector empty. \<^verbatim>\<open>init_ini\<close>
  sets the buffer and the line counter only.
\<close>

definition ini_zero :: ini_parser where
  "ini_zero = \<lparr>buf = [], cursor = 0, line = 0,
     section_ini = \<lparr>data = None, length_s = 0\<rparr>, properties = []\<rparr>"

definition init_ini :: "ini_parser \<Rightarrow> char list \<Rightarrow> ini_parser" where
  "init_ini ini b = ini\<lparr>buf := b, line := 1\<rparr>"

text \<open>
  The bytes a slice views: \<^verbatim>\<open>length\<close> bytes from \<^verbatim>\<open>data\<close> on, none for the null slice.
  (\<^verbatim>\<open>main\<close> prints them with \<^verbatim>\<open>printf("%.*s", s.length, s.data)\<close>, which stops early at a
  NUL byte.)
\<close>

definition slice_text :: "char list \<Rightarrow> slice \<Rightarrow> char list" where
  "slice_text b s =
     (case data s of None \<Rightarrow> [] | Some p \<Rightarrow> take (nat (length_s s)) (drop p b))"

definition kv_text :: "char list \<Rightarrow> ini_kv \<Rightarrow> char list \<times> char list \<times> char list" where
  "kv_text b kv = (slice_text b (section_kv kv), slice_text b (key_kv kv), slice_text b (value_kv kv))"

subsection \<open>The scanner\<close>

text \<open>\<^verbatim>\<open>discard_whitespace\<close>: the loop returns at the first byte that is no space or tab.\<close>

function discard_whitespace :: "ini_parser \<Rightarrow> ini_parser" where
  "discard_whitespace ini =
     (if cursor ini < length (buf ini) then
        (if buf ini ! cursor ini = SPC \<or> buf ini ! cursor ini = TAB
         then discard_whitespace (ini\<lparr>cursor := cursor ini + 1\<rparr>)
         else ini)
      else ini)"
  by pat_completeness auto
termination
  by (relation "measure (\<lambda>ini. length (buf ini) - cursor ini)") auto

declare discard_whitespace.simps [simp del]

text \<open>\<^verbatim>\<open>discard_comment\<close>: the loop returns at the first \<^verbatim>\<open>\r\<close> or \<^verbatim>\<open>\n\<close>.\<close>

function discard_comment :: "ini_parser \<Rightarrow> ini_parser" where
  "discard_comment ini =
     (if cursor ini < length (buf ini) then
        (if buf ini ! cursor ini = CR \<or> buf ini ! cursor ini = LF
         then ini
         else discard_comment (ini\<lparr>cursor := cursor ini + 1\<rparr>))
      else ini)"
  by pat_completeness auto
termination
  by (relation "measure (\<lambda>ini. length (buf ini) - cursor ini)") auto

declare discard_comment.simps [simp del]

text \<open>
  The loop of \<^verbatim>\<open>parse_section_header\<close>. The flag \<^verbatim>\<open>section_done\<close> of the source is
  false whenever the loop condition or the test after the loop reads it (the only
  assignment is followed by \<^verbatim>\<open>return 0\<close>), so the loop runs while
  \<^verbatim>\<open>cursor < buf.length\<close> and the code after it always reports the error.
\<close>

function section_loop :: "ini_parser \<Rightarrow> nat \<Rightarrow> result \<times> ini_parser" where
  "section_loop ini section_begin =
     (if cursor ini < length (buf ini) then
        (if buf ini ! cursor ini = CHR '']''
         then (Success, ini\<lparr>section_ini :=
                 \<lparr>data = Some section_begin,
                  length_s = int (cursor ini) - int section_begin\<rparr>\<rparr>)
         else section_loop (ini\<lparr>cursor := cursor ini + 1\<rparr>) section_begin)
      else (Failure (UnterminatedSection (line ini)), ini))"
  by pat_completeness auto
termination
  by (relation "measure (\<lambda>(ini, b). length (buf ini) - cursor ini)") auto

declare section_loop.simps [simp del]

definition parse_section_header :: "ini_parser \<Rightarrow> result \<times> ini_parser" where
  "parse_section_header ini =
     (let ini1 = ini\<lparr>cursor := cursor ini + 1\<rparr>;
          section_begin = cursor ini1
      in section_loop ini1 section_begin)"

text \<open>
  The key loop of \<^verbatim>\<open>parse_kv\<close>, with its locals \<^verbatim>\<open>key_done\<close> and \<^verbatim>\<open>key_end\<close>. A line
  end returns the error from inside the loop (\<open>Inl\<close>); otherwise the loop ends with the
  state and the locals (\<open>Inr\<close>).
\<close>

function read_key ::
  "ini_parser \<Rightarrow> bool \<Rightarrow> nat option \<Rightarrow> (error \<times> ini_parser) + (ini_parser \<times> bool \<times> nat option)"
where
  "read_key ini key_done key_end =
     (if \<not> key_done \<and> cursor ini < length (buf ini) then
        (if buf ini ! cursor ini = CHR ''=''
         then read_key (ini\<lparr>cursor := cursor ini + 1\<rparr>) True key_end
         else if buf ini ! cursor ini = SPC \<or> buf ini ! cursor ini = TAB
         then read_key (ini\<lparr>cursor := cursor ini + 1\<rparr>) key_done key_end
         else if buf ini ! cursor ini = CR \<or> buf ini ! cursor ini = LF
         then Inl (MissingEquals (line ini), ini)
         else read_key (ini\<lparr>cursor := cursor ini + 1\<rparr>) key_done (Some (cursor ini + 1)))
      else Inr (ini, key_done, key_end))"
  by pat_completeness auto
termination
  by (relation "measure (\<lambda>(ini, d, e). length (buf ini) - cursor ini)") auto

declare read_key.simps [simp del]

text \<open>The value loop of \<^verbatim>\<open>parse_kv\<close>, with its locals \<^verbatim>\<open>value_done\<close> and \<^verbatim>\<open>value_end\<close>.\<close>

function read_value ::
  "ini_parser \<Rightarrow> bool \<Rightarrow> nat option \<Rightarrow> ini_parser \<times> bool \<times> nat option"
where
  "read_value ini value_done value_end =
     (if \<not> value_done \<and> cursor ini < length (buf ini) then
        (if buf ini ! cursor ini = CR \<or> buf ini ! cursor ini = LF
         then read_value (ini\<lparr>cursor := cursor ini + 1\<rparr>) True value_end
         else if buf ini ! cursor ini = SPC \<or> buf ini ! cursor ini = TAB
         then read_value (ini\<lparr>cursor := cursor ini + 1\<rparr>) value_done value_end
         else read_value (ini\<lparr>cursor := cursor ini + 1\<rparr>) value_done (Some (cursor ini + 1)))
      else (ini, value_done, value_end))"
  by pat_completeness auto
termination
  by (relation "measure (\<lambda>(ini, d, e). length (buf ini) - cursor ini)") auto

declare read_value.simps [simp del]

text \<open>
  \<^verbatim>\<open>parse_kv\<close>. The pointers \<^verbatim>\<open>key_begin\<close> and \<^verbatim>\<open>value_begin\<close> point into the buffer and
  are never null, so \<^verbatim>\<open>assert(key_begin)\<close> and \<^verbatim>\<open>assert(value_begin)\<close> always pass;
  \<^verbatim>\<open>value_end\<close> is not null where \<^verbatim>\<open>assert(value_end)\<close> is reached, because the test
  before it has returned otherwise. \<^verbatim>\<open>assert(key_end)\<close> fails when no byte has extended
  the key.
\<close>

definition parse_kv :: "ini_parser \<Rightarrow> result \<times> ini_parser" where
  "parse_kv ini =
     (let ini1 = discard_whitespace ini;
          key_begin = cursor ini1
      in case read_key ini1 False None of
           Inl (e, ini2) \<Rightarrow> (Failure e, ini2)
         | Inr (ini2, key_done, key_end) \<Rightarrow>
             if \<not> key_done then (Failure (MissingEqualsEOF (line ini2)), ini2)
             else
               let ini3 = discard_whitespace ini2;
                   value_begin = cursor ini3
               in case read_value ini3 False None of
                    (ini4, value_done, value_end) \<Rightarrow>
                      (case value_end of
                         None \<Rightarrow> (Failure (MissingValue (line ini4)), ini4)
                       | Some ve \<Rightarrow>
                           (case key_end of
                              None \<Rightarrow> (Failure AssertionFailure, ini4)
                            | Some ke \<Rightarrow>
                                (Success, ini4\<lparr>properties := properties ini4 @
                                   [\<lparr>section_kv = section_ini ini4,
                                     key_kv = \<lparr>data = Some key_begin,
                                               length_s = int ke - int key_begin\<rparr>,
                                     value_kv = \<lparr>data = Some value_begin,
                                                 length_s = int ve - int value_begin\<rparr>\<rparr>]\<rparr>))))"

text \<open>
  The \<^verbatim>\<open>switch\<close> of \<^verbatim>\<open>parse_ini\<close>, one dispatch on the byte at the cursor. The caller
  guarantees \<^verbatim>\<open>cursor < buf.length\<close>; the look-ahead test \<^verbatim>\<open>cursor < buf.length - 1\<close> of
  the \<^verbatim>\<open>\r\<close> case is written \<open>cursor + 1 < length\<close>.
\<close>

definition dispatch :: "ini_parser \<Rightarrow> result \<times> ini_parser" where
  "dispatch ini =
     (let c = buf ini ! cursor ini in
      if c = CR then
        (if cursor ini + 1 < length (buf ini) \<and> buf ini ! (cursor ini + 1) = LF
         then (Success, ini)
         else (Success, ini\<lparr>line := line ini + 1\<rparr>))
      else if c = LF then (Success, ini\<lparr>line := line ini + 1\<rparr>)
      else if c = SPC \<or> c = TAB then (Success, ini)
      else if c = CHR '';'' then (Success, discard_comment ini)
      else if c = CHR ''['' then parse_section_header ini
      else parse_kv ini)"


subsection \<open>What the loops compute\<close>

text \<open>
  Character classes of the scanner, and the tentative end pointer the key and value loops
  keep: scanning the bytes \<open>cs\<close> that start at offset \<open>p\<close>, every byte that is no
  space or tab moves the end to one past itself.
\<close>

definition is_ws :: "char \<Rightarrow> bool" where "is_ws c = (c = SPC \<or> c = TAB)"

definition is_eol :: "char \<Rightarrow> bool" where "is_eol c = (c = CR \<or> c = LF)"

fun tentative_end :: "nat \<Rightarrow> char list \<Rightarrow> nat option \<Rightarrow> nat option" where
  "tentative_end p [] e = e"
| "tentative_end p (c # cs) e = tentative_end (Suc p) cs (if is_ws c then e else Some (Suc p))"

lemma is_ws_fold: "(c = SPC \<or> c = TAB) = is_ws c"
  by (simp add: is_ws_def)

lemma is_eol_fold: "(c = CR \<or> c = LF) = is_eol c"
  by (simp add: is_eol_def)

lemma ws_not_eol: "is_ws c \<Longrightarrow> \<not> is_eol c"
  by (auto simp: is_ws_def is_eol_def SPC_def TAB_def CR_def LF_def)

lemma drop_nth_Cons: "c < length b \<Longrightarrow> drop c b = b ! c # drop (Suc c) b"
  by (simp add: Cons_nth_drop_Suc)

lemma discard_whitespace_eq:
  "discard_whitespace ini =
     ini\<lparr>cursor := cursor ini + length (takeWhile is_ws (drop (cursor ini) (buf ini)))\<rparr>"
proof (induction ini rule: discard_whitespace.induct)
  case (1 ini)
  show ?case
  proof (cases "cursor ini < length (buf ini)")
    case False
    then show ?thesis by (subst discard_whitespace.simps) simp
  next
    case True
    note d = drop_nth_Cons [OF True]
    show ?thesis
    proof (cases "buf ini ! cursor ini = SPC \<or> buf ini ! cursor ini = TAB")
      case ws: True
      with True "1.IH" show ?thesis
        by (subst discard_whitespace.simps) (simp add: d is_ws_fold)
    next
      case False
      with True show ?thesis
        by (subst discard_whitespace.simps) (simp add: d is_ws_fold)
    qed
  qed
qed

lemma discard_comment_eq:
  "discard_comment ini =
     ini\<lparr>cursor := cursor ini +
       length (takeWhile (\<lambda>c. \<not> is_eol c) (drop (cursor ini) (buf ini)))\<rparr>"
proof (induction ini rule: discard_comment.induct)
  case (1 ini)
  show ?case
  proof (cases "cursor ini < length (buf ini)")
    case False
    then show ?thesis by (subst discard_comment.simps) simp
  next
    case True
    note d = drop_nth_Cons [OF True]
    show ?thesis
    proof (cases "buf ini ! cursor ini = CR \<or> buf ini ! cursor ini = LF")
      case False
      with True "1.IH" show ?thesis
        by (subst discard_comment.simps) (simp add: d is_eol_fold)
    next
      case eol: True
      with True show ?thesis
        by (subst discard_comment.simps) (simp add: d is_eol_fold)
    qed
  qed
qed

lemma section_loop_eq:
  "section_loop ini b =
     (let rest = drop (cursor ini) (buf ini);
          p = cursor ini + length (takeWhile (\<lambda>c. c \<noteq> CHR '']'') rest)
      in if CHR '']'' \<in> set rest
         then (Success, ini\<lparr>cursor := p,
                 section_ini := \<lparr>data = Some b, length_s = int p - int b\<rparr>\<rparr>)
         else (Failure (UnterminatedSection (line ini)), ini\<lparr>cursor := p\<rparr>))"
proof (induction ini b rule: section_loop.induct)
  case (1 ini b)
  show ?case
  proof (cases "cursor ini < length (buf ini)")
    case False
    then show ?thesis by (subst section_loop.simps) simp
  next
    case True
    note d = drop_nth_Cons [OF True]
    show ?thesis
    proof (cases "buf ini ! cursor ini = CHR '']''")
      case False
      with True "1.IH" show ?thesis
        by (subst section_loop.simps) (auto simp add: d Let_def)
    next
      case bracket: True
      with True show ?thesis
        by (subst section_loop.simps) (simp add: d)
    qed
  qed
qed

lemma read_key_eq:
  "read_key ini done e =
     (if done then Inr (ini, True, e)
      else
        let seg = takeWhile (\<lambda>c. c \<noteq> CHR ''=''  \<and> \<not> is_eol c) (drop (cursor ini) (buf ini));
            p = cursor ini + length seg;
            e' = tentative_end (cursor ini) seg e
        in if p < length (buf ini)
           then (if buf ini ! p = CHR ''='' then Inr (ini\<lparr>cursor := Suc p\<rparr>, True, e')
                 else Inl (MissingEquals (line ini), ini\<lparr>cursor := p\<rparr>))
           else Inr (ini\<lparr>cursor := p\<rparr>, False, e'))"
proof (induction ini "done" e rule: read_key.induct)
  case (1 ini kd e)
  show ?case
  proof (cases "\<not> kd \<and> cursor ini < length (buf ini)")
    case False
    then show ?thesis by (subst read_key.simps) auto
  next
    case True
    then have lt: "cursor ini < length (buf ini)" and kd: "\<not> kd" by simp_all
    note d = drop_nth_Cons [OF lt]
    consider (eq) "buf ini ! cursor ini = CHR ''=''"
      | (ws) "buf ini ! cursor ini \<noteq> CHR ''=''" "is_ws (buf ini ! cursor ini)"
      | (eol) "buf ini ! cursor ini \<noteq> CHR ''=''" "\<not> is_ws (buf ini ! cursor ini)"
          "is_eol (buf ini ! cursor ini)"
      | (other) "buf ini ! cursor ini \<noteq> CHR ''=''" "\<not> is_ws (buf ini ! cursor ini)"
          "\<not> is_eol (buf ini ! cursor ini)"
      by blast
    then show ?thesis
    proof cases
      case eq
      with lt kd "1.IH"(1) show ?thesis
        by (subst read_key.simps) (simp add: d)
    next
      case ws
      with lt kd ws_not_eol "1.IH"(2) show ?thesis
        by (subst read_key.simps) (simp add: d is_ws_fold is_eol_fold Let_def)
    next
      case eol
      with lt kd show ?thesis
        by (subst read_key.simps) (simp add: d is_ws_fold is_eol_fold)
    next
      case other
      with lt kd "1.IH"(3) show ?thesis
        by (subst read_key.simps) (simp add: d is_ws_fold is_eol_fold Let_def)
    qed
  qed
qed

lemma read_value_eq:
  "read_value ini done e =
     (if done then (ini, True, e)
      else
        let seg = takeWhile (\<lambda>c. \<not> is_eol c) (drop (cursor ini) (buf ini));
            p = cursor ini + length seg;
            e' = tentative_end (cursor ini) seg e
        in if p < length (buf ini)
           then (ini\<lparr>cursor := Suc p\<rparr>, True, e')
           else (ini\<lparr>cursor := p\<rparr>, False, e'))"
proof (induction ini "done" e rule: read_value.induct)
  case (1 ini vd e)
  show ?case
  proof (cases "\<not> vd \<and> cursor ini < length (buf ini)")
    case False
    then show ?thesis by (subst read_value.simps) auto
  next
    case True
    then have lt: "cursor ini < length (buf ini)" and vd: "\<not> vd" by simp_all
    note d = drop_nth_Cons [OF lt]
    consider (eol) "is_eol (buf ini ! cursor ini)"
      | (ws) "\<not> is_eol (buf ini ! cursor ini)" "is_ws (buf ini ! cursor ini)"
      | (other) "\<not> is_eol (buf ini ! cursor ini)" "\<not> is_ws (buf ini ! cursor ini)"
      by blast
    then show ?thesis
    proof cases
      case eol
      with lt vd "1.IH"(1) show ?thesis
        by (subst read_value.simps) (simp add: d is_ws_fold is_eol_fold)
    next
      case ws
      with lt vd "1.IH"(2) show ?thesis
        by (subst read_value.simps) (simp add: d is_ws_fold is_eol_fold Let_def)
    next
      case other
      with lt vd "1.IH"(3) show ?thesis
        by (subst read_value.simps) (simp add: d is_ws_fold is_eol_fold Let_def)
    qed
  qed
qed

text \<open>No sub-routine changes the buffer or moves the cursor backwards.\<close>

lemma parse_section_header_frame:
  "buf (snd (parse_section_header ini)) = buf ini \<and>
   cursor ini \<le> cursor (snd (parse_section_header ini))"
  by (simp add: parse_section_header_def section_loop_eq Let_def)

lemma parse_kv_frame:
  "buf (snd (parse_kv ini)) = buf ini \<and> cursor ini \<le> cursor (snd (parse_kv ini))"
  by (simp add: parse_kv_def discard_whitespace_eq read_key_eq read_value_eq Let_def
        split: option.split)

lemma dispatch_frame:
  "buf (snd (dispatch ini)) = buf ini \<and> cursor ini \<le> cursor (snd (dispatch ini))"
  using parse_section_header_frame [of ini] parse_kv_frame [of ini]
  by (simp add: dispatch_def discard_comment_eq Let_def)

subsection \<open>The top-level loop\<close>

text \<open>
  \<^verbatim>\<open>parse_ini\<close>: while the cursor is inside the buffer, dispatch on the byte under it,
  return the error if the sub-routine failed, and advance the cursor by one otherwise.
\<close>

function parse_ini :: "ini_parser \<Rightarrow> result \<times> ini_parser" where
  "parse_ini ini =
     (if cursor ini < length (buf ini) then
        (case dispatch ini of
           (Failure err, ini') \<Rightarrow> (Failure err, ini')
         | (Success, ini') \<Rightarrow> parse_ini (ini'\<lparr>cursor := cursor ini' + 1\<rparr>))
      else (Success, ini))"
  by pat_completeness auto
termination
proof (relation "measure (\<lambda>ini. length (buf ini) - cursor ini)", goal_cases)
  case 1
  show ?case by simp
next
  case (2 ini r ini')
  then have "snd (dispatch ini) = ini'" by (metis snd_conv)
  with 2 dispatch_frame [of ini] show ?case by auto
qed

declare parse_ini.simps [simp del]

text \<open>
  The parse \<^verbatim>\<open>main\<close> runs on a loaded buffer (\<^verbatim>\<open>ini_parser ini{}; init_ini(&ini, buf);
  parse_ini(&ini)\<close>), and the texts of the records it leaves in \<^verbatim>\<open>ini.properties\<close>.
\<close>

definition main_parse :: "char list \<Rightarrow> result \<times> ini_parser" where
  "main_parse b = parse_ini (init_ini ini_zero b)"

definition records :: "char list \<Rightarrow> (char list \<times> char list \<times> char list) list" where
  "records b = map (kv_text b) (properties (snd (main_parse b)))"

subsection \<open>The text of a key/value line\<close>

text \<open>
  The vocabulary of the claims about \<^verbatim>\<open>parse_kv\<close>: the rest of the current line (the
  bytes from the cursor up to the next \<^verbatim>\<open>\r\<close>, \<^verbatim>\<open>\n\<close> or the end of the buffer), its
  part before the first equals sign, its part after it, and a text with its leading and
  trailing spaces and tabs removed.
\<close>

definition rstrip :: "char list \<Rightarrow> char list" where
  "rstrip xs = rev (dropWhile is_ws (rev xs))"

definition trim :: "char list \<Rightarrow> char list" where
  "trim xs = rstrip (dropWhile is_ws xs)"

definition line_rest :: "ini_parser \<Rightarrow> char list" where
  "line_rest ini = takeWhile (\<lambda>c. \<not> is_eol c) (drop (cursor ini) (buf ini))"

definition key_part :: "char list \<Rightarrow> char list" where
  "key_part ln = takeWhile (\<lambda>c. c \<noteq> CHR ''='') ln"

definition value_part :: "char list \<Rightarrow> char list" where
  "value_part ln = drop (Suc (length (key_part ln))) ln"

subsection \<open>Runs of the top-level loop\<close>

text \<open>
  \<open>reaches ini0 ini\<close>: the loop of \<^verbatim>\<open>parse_ini\<close>, entered in state \<open>ini0\<close>, stands at
  its head in state \<open>ini\<close> after some iterations, each of which dispatched without an
  error and advanced the cursor by one.
\<close>

inductive reaches :: "ini_parser \<Rightarrow> ini_parser \<Rightarrow> bool" for ini0 where
  reaches_start: "reaches ini0 ini0"
| reaches_next: "reaches ini0 ini \<Longrightarrow> cursor ini < length (buf ini) \<Longrightarrow>
     dispatch ini = (Success, ini') \<Longrightarrow> reaches ini0 (ini'\<lparr>cursor := cursor ini' + 1\<rparr>)"

text \<open>
  What the iterations of a run did, in order: a section header was parsed (with the slice
  it stored as the current section), a record was appended, or neither. The trace ends
  where the loop ends, at the end of the buffer or at the first error.
\<close>

datatype event = Header slice | Emitted ini_kv | Skipped

definition event_of :: "ini_parser \<Rightarrow> ini_parser \<Rightarrow> event" where
  "event_of ini ini' =
     (if buf ini ! cursor ini = CHR ''['' then Header (section_ini ini')
      else if properties ini' = properties ini then Skipped
      else Emitted (last (properties ini')))"

function trace :: "ini_parser \<Rightarrow> event list" where
  "trace ini =
     (if cursor ini < length (buf ini) then
        (case dispatch ini of
           (Failure err, ini') \<Rightarrow> []
         | (Success, ini') \<Rightarrow> event_of ini ini' # trace (ini'\<lparr>cursor := cursor ini' + 1\<rparr>))
      else [])"
  by pat_completeness auto
termination
proof (relation "measure (\<lambda>ini. length (buf ini) - cursor ini)", goal_cases)
  case 1
  show ?case by simp
next
  case (2 ini r ini')
  then have "snd (dispatch ini) = ini'" by (metis snd_conv)
  with 2 dispatch_frame [of ini] show ?case by auto
qed

declare trace.simps [simp del]

text \<open>
  The records a trace appended, and the section in force after a trace that started with
  the current section \<open>s\<close>: the slice of its last header event, \<open>s\<close> if it has none.
\<close>

fun emitted :: "event list \<Rightarrow> ini_kv list" where
  "emitted [] = []"
| "emitted (Emitted kv # es) = kv # emitted es"
| "emitted (Header h # es) = emitted es"
| "emitted (Skipped # es) = emitted es"

fun section_after :: "slice \<Rightarrow> event list \<Rightarrow> slice" where
  "section_after s [] = s"
| "section_after s (Header h # es) = section_after h es"
| "section_after s (Emitted kv # es) = section_after s es"
| "section_after s (Skipped # es) = section_after s es"

subsection \<open>Lines of the text\<close>

text \<open>
  The line of the text an offset stands on, counted from 1 as the specification counts
  lines: a \<^verbatim>\<open>\n\<close> ends a line, and so does a \<^verbatim>\<open>\r\<close> that no \<^verbatim>\<open>\n\<close> follows.
\<close>

fun line_ends :: "char list \<Rightarrow> int" where
  "line_ends [] = 0"
| "line_ends [c] = (if c = CR \<or> c = LF then 1 else 0)"
| "line_ends (c # d # cs) =
     (if c = LF then 1 else if c = CR \<and> d \<noteq> LF then 1 else 0) + line_ends (d # cs)"

definition text_line :: "char list \<Rightarrow> nat \<Rightarrow> int" where
  "text_line b p = 1 + line_ends (take p b)"

section \<open>Properties of the scanner\<close>

subsection \<open>Key/value lines\<close>

lemma rstrip_Cons:
  "rstrip (c # cs) =
     (if list_all is_ws cs then (if is_ws c then [] else [c]) else c # rstrip cs)"
  by (simp add: rstrip_def dropWhile_append list_all_iff)

lemma tentative_end_eq:
  "tentative_end p xs e = (if list_all is_ws xs then e else Some (p + length (rstrip xs)))"
  by (induction xs arbitrary: p e) (simp_all add: rstrip_Cons)

lemma eq_not_ws: "\<not> is_ws (CHR ''='')"
  by (simp add: is_ws_def SPC_def TAB_def)

lemma eq_not_eol: "\<not> is_eol (CHR ''='')"
  by (simp add: is_eol_def CR_def LF_def)

lemma takeWhile_ws_before_stop:
  "\<not> is_ws x \<Longrightarrow> takeWhile is_ws (xs @ x # ys) = takeWhile is_ws xs"
  by (induction xs) simp_all

lemma dropWhile_ws_before_stop:
  "\<not> is_ws x \<Longrightarrow> dropWhile is_ws (xs @ x # ys) = dropWhile is_ws xs @ x # ys"
  by (induction xs) simp_all

lemma takeWhile_all_then_stop:
  "\<forall>c\<in>set xs. P c \<Longrightarrow> \<not> P x \<Longrightarrow> takeWhile P (xs @ x # ys) = xs"
  by (induction xs) simp_all

lemma takeWhile_not_eol_dropWhile_ws:
  "takeWhile (\<lambda>c. \<not> is_eol c) (dropWhile is_ws xs) =
   dropWhile is_ws (takeWhile (\<lambda>c. \<not> is_eol c) xs)"
  by (induction xs) (auto simp: ws_not_eol)

lemma takeWhile_ws_takeWhile_not_eol:
  "takeWhile is_ws (takeWhile (\<lambda>c. \<not> is_eol c) xs) = takeWhile is_ws xs"
  by (induction xs) (auto simp: ws_not_eol)

lemma takeWhile_dropWhile_same: "takeWhile P (dropWhile P xs) = []"
  by (induction xs) simp_all

text \<open>The shape of a line that holds an equals sign.\<close>

lemma line_split:
  assumes "CHR ''='' \<in> set (takeWhile (\<lambda>c. \<not> is_eol c) rest)"
  defines "ln \<equiv> takeWhile (\<lambda>c. \<not> is_eol c) rest"
  shows "ln = key_part ln @ CHR ''='' # value_part ln"
    and "rest = key_part ln @ CHR ''='' # drop (Suc (length (key_part ln))) rest"
    and "takeWhile (\<lambda>c. \<not> is_eol c) (drop (Suc (length (key_part ln))) rest) = value_part ln"
    and "\<forall>c\<in>set (key_part ln). c \<noteq> CHR ''='' \<and> \<not> is_eol c"
proof -
  let ?k = "key_part ln"
  from assms(1) have "CHR ''='' \<in> set ln" by (simp add: ln_def)
  then have dw: "dropWhile (\<lambda>c. c \<noteq> CHR ''='') ln \<noteq> []"
    by (simp add: dropWhile_eq_Nil_conv)
  then have hd: "hd (dropWhile (\<lambda>c. c \<noteq> CHR ''='') ln) = CHR ''=''"
    using hd_dropWhile [of "\<lambda>c. c \<noteq> CHR ''=''" ln] by simp
  have "ln = ?k @ dropWhile (\<lambda>c. c \<noteq> CHR ''='') ln"
    by (simp add: key_part_def)
  moreover have "value_part ln = tl (dropWhile (\<lambda>c. c \<noteq> CHR ''='') ln)"
    by (simp add: value_part_def key_part_def dropWhile_eq_drop tl_drop drop_Suc)
  with dw hd have "dropWhile (\<lambda>c. c \<noteq> CHR ''='') ln = CHR ''='' # value_part ln"
    by (metis list.collapse)
  ultimately show ln: "ln = ?k @ CHR ''='' # value_part ln" by simp
  have rest: "rest = ln @ dropWhile (\<lambda>c. \<not> is_eol c) rest"
    by (simp add: ln_def)
  have "drop (Suc (length ?k)) rest = value_part ln @ dropWhile (\<lambda>c. \<not> is_eol c) rest"
    by (subst rest, subst ln) simp
  with rest ln show "rest = ?k @ CHR ''='' # drop (Suc (length ?k)) rest"
    by (metis append_Cons append_assoc)
  have "\<forall>c\<in>set ln. \<not> is_eol c"
    by (auto simp: ln_def dest: set_takeWhileD)
  with ln have vne: "\<forall>c\<in>set (value_part ln). \<not> is_eol c" and kne: "\<forall>c\<in>set ?k. \<not> is_eol c"
    by (metis Un_iff set_append list.set_intros(2))+
  show "takeWhile (\<lambda>c. \<not> is_eol c) (drop (Suc (length ?k)) rest) = value_part ln"
  proof -
    have "takeWhile (\<lambda>c. \<not> is_eol c) (value_part ln @ dropWhile (\<lambda>c. \<not> is_eol c) rest)
        = value_part ln"
      using vne by (simp add: takeWhile_dropWhile_same)
    with \<open>drop (Suc (length ?k)) rest = _\<close> show ?thesis by simp
  qed
  from kne show "\<forall>c\<in>set ?k. c \<noteq> CHR ''='' \<and> \<not> is_eol c"
    by (auto simp: key_part_def dest: set_takeWhileD)
qed

lemma list_all_dropWhile: "list_all P (dropWhile P xs) = list_all P xs"
  by (induction xs) simp_all

lemma length_takeWhile_dropWhile: "length (takeWhile P xs) + length (dropWhile P xs) = length xs"
  by (induction xs) simp_all

lemma rstrip_prefix: "take (length (rstrip xs)) (xs @ ys) = rstrip xs"
proof -
  have "rev (takeWhile is_ws (rev xs) @ dropWhile is_ws (rev xs)) = xs"
    by simp
  then have "xs = rstrip xs @ rev (takeWhile is_ws (rev xs))"
    by (simp add: rstrip_def del: takeWhile_dropWhile_id)
  then have "xs @ ys = rstrip xs @ (rev (takeWhile is_ws (rev xs)) @ ys)"
    by simp
  then show ?thesis
    by (metis append_eq_conv_conj)
qed

lemma parse_kv_line:
  assumes eq: "CHR ''='' \<in> set (line_rest ini)"
  shows "parse_kv ini =
     (let ln = line_rest ini; k = key_part ln; v = value_part ln;
          t = cursor ini + length ln;
          ini' = ini\<lparr>cursor := (if t < length (buf ini) then Suc t else t)\<rparr>
      in if list_all is_ws v then (Failure (MissingValue (line ini)), ini')
         else if list_all is_ws k then (Failure AssertionFailure, ini')
         else (Success, ini'\<lparr>properties := properties ini @
                [\<lparr>section_kv = section_ini ini,
                  key_kv = \<lparr>data = Some (cursor ini + length (takeWhile is_ws k)),
                            length_s = int (length (trim k))\<rparr>,
                  value_kv = \<lparr>data = Some (Suc (cursor ini + length k) + length (takeWhile is_ws v)),
                              length_s = int (length (trim v))\<rparr>\<rparr>]\<rparr>))" (is ?outcome)
    and "(let k = key_part (line_rest ini) in
          slice_text (buf ini) \<lparr>data = Some (cursor ini + length (takeWhile is_ws k)),
                                length_s = int (length (trim k))\<rparr> = trim k)" (is ?key)
    and "(let k = key_part (line_rest ini); v = value_part (line_rest ini) in
          slice_text (buf ini)
            \<lparr>data = Some (Suc (cursor ini + length k) + length (takeWhile is_ws v)),
             length_s = int (length (trim v))\<rparr> = trim v)" (is ?val)
    and "(let k = key_part (line_rest ini); v = value_part (line_rest ini);
              kb = cursor ini + length (takeWhile is_ws k);
              vb = Suc (cursor ini + length k) + length (takeWhile is_ws v);
              t = cursor ini + length (line_rest ini)
          in read_key (discard_whitespace ini) False None =
               Inr (ini\<lparr>cursor := Suc (cursor ini + length k)\<rparr>, True,
                    if list_all is_ws k then None else Some (kb + length (trim k))) \<and>
             discard_whitespace (ini\<lparr>cursor := Suc (cursor ini + length k)\<rparr>) =
               ini\<lparr>cursor := vb\<rparr> \<and>
             read_value (ini\<lparr>cursor := vb\<rparr>) False None =
               (ini\<lparr>cursor := (if t < length (buf ini) then Suc t else t)\<rparr>,
                t < length (buf ini),
                if list_all is_ws v then None else Some (vb + length (trim v))))" (is ?scan)
proof -
  define rest where "rest = drop (cursor ini) (buf ini)"
  define ln where "ln = line_rest ini"
  define k where "k = key_part ln"
  define v where "v = value_part ln"
  define t where "t = cursor ini + length ln"
  have ln_rest: "ln = takeWhile (\<lambda>c. \<not> is_eol c) rest"
    by (simp add: ln_def line_rest_def rest_def)
  from eq have eq': "CHR ''='' \<in> set (takeWhile (\<lambda>c. \<not> is_eol c) rest)"
    by (simp add: line_rest_def rest_def)
  note sp = line_split [OF eq', folded ln_rest, folded k_def v_def]
  define rest2 where "rest2 = drop (Suc (length k)) rest"
  have ln_split: "ln = k @ CHR ''='' # v" by (rule sp(1))
  have rest_split: "rest = k @ CHR ''='' # rest2" unfolding rest2_def by (rule sp(2))
  have v_rest2: "takeWhile (\<lambda>c. \<not> is_eol c) rest2 = v" unfolding rest2_def by (rule sp(3))
  have k_ok: "\<forall>c\<in>set k. c \<noteq> CHR ''='' \<and> \<not> is_eol c" by (rule sp(4))
  have nth_rest: "\<And>n. n < length rest \<Longrightarrow> cursor ini + n < length (buf ini) \<and>
      buf ini ! (cursor ini + n) = rest ! n"
    by (auto simp: rest_def)
  have drop_rest: "\<And>n. drop (cursor ini + n) (buf ini) = drop n rest"
    by (simp add: rest_def add.commute)
  \<comment> \<open>whitespace before the key\<close>
  define kb where "kb = cursor ini + length (takeWhile is_ws k)"
  have w1: "takeWhile is_ws rest = takeWhile is_ws k"
    by (subst rest_split) (simp add: takeWhile_ws_before_stop eq_not_ws)
  have s1: "discard_whitespace ini = ini\<lparr>cursor := kb\<rparr>"
    by (simp add: discard_whitespace_eq w1 rest_def [symmetric] kb_def)
  \<comment> \<open>the key loop\<close>
  have "drop kb (buf ini) = dropWhile is_ws rest"
    by (simp add: kb_def drop_rest w1 [symmetric] dropWhile_eq_drop)
  also have "\<dots> = dropWhile is_ws k @ CHR ''='' # rest2"
    by (subst rest_split) (simp add: dropWhile_ws_before_stop eq_not_ws)
  finally have d1: "drop kb (buf ini) = dropWhile is_ws k @ CHR ''='' # rest2" .
  have "\<forall>c\<in>set (dropWhile is_ws k). c \<noteq> CHR ''='' \<and> \<not> is_eol c"
    using k_ok by (meson set_dropWhileD)
  then have seg: "takeWhile (\<lambda>c. c \<noteq> CHR ''='' \<and> \<not> is_eol c) (drop kb (buf ini)) =
      dropWhile is_ws k"
    by (simp add: d1 takeWhile_all_then_stop)
  have p: "kb + length (dropWhile is_ws k) = cursor ini + length k"
    using length_takeWhile_dropWhile [of is_ws k] by (simp add: kb_def)
  have "length k < length rest" and "rest ! length k = CHR ''=''"
    by (subst rest_split, simp)+
  with nth_rest [of "length k"]
  have plt: "cursor ini + length k < length (buf ini)"
    and pat: "buf ini ! (cursor ini + length k) = CHR ''=''"
    by simp_all
  have s2: "read_key (ini\<lparr>cursor := kb\<rparr>) False None =
      Inr (ini\<lparr>cursor := Suc (cursor ini + length k)\<rparr>, True,
           tentative_end kb (dropWhile is_ws k) None)"
    by (simp add: read_key_eq seg p plt pat Let_def)
  \<comment> \<open>whitespace before the value\<close>
  have drop2: "drop (Suc (cursor ini + length k)) (buf ini) = rest2"
    using drop_rest [of "Suc (length k)"] by (simp add: rest2_def)
  define vb where "vb = Suc (cursor ini + length k) + length (takeWhile is_ws v)"
  have w2: "takeWhile is_ws rest2 = takeWhile is_ws v"
    by (simp add: v_rest2 [symmetric] takeWhile_ws_takeWhile_not_eol)
  have s3: "discard_whitespace (ini\<lparr>cursor := Suc (cursor ini + length k)\<rparr>) = ini\<lparr>cursor := vb\<rparr>"
    by (simp add: discard_whitespace_eq drop2 w2 vb_def)
  \<comment> \<open>the value loop\<close>
  have "drop vb (buf ini) = drop (length (takeWhile is_ws rest2)) rest2"
    unfolding vb_def w2 [symmetric] drop2 [symmetric] by (simp add: add.commute)
  then have d3: "drop vb (buf ini) = dropWhile is_ws rest2"
    by (simp add: dropWhile_eq_drop)
  have segv: "takeWhile (\<lambda>c. \<not> is_eol c) (drop vb (buf ini)) = dropWhile is_ws v"
    by (simp add: d3 takeWhile_not_eol_dropWhile_ws v_rest2)
  have pv: "vb + length (dropWhile is_ws v) = t"
    using length_takeWhile_dropWhile [of is_ws v] by (simp add: vb_def t_def ln_split)
  have s4: "read_value (ini\<lparr>cursor := vb\<rparr>) False None =
      (ini\<lparr>cursor := (if t < length (buf ini) then Suc t else t)\<rparr>, t < length (buf ini),
       tentative_end vb (dropWhile is_ws v) None)"
    by (simp add: read_value_eq segv pv Let_def)
  \<comment> \<open>the tentative ends\<close>
  have ke: "tentative_end kb (dropWhile is_ws k) None =
      (if list_all is_ws k then None else Some (kb + length (trim k)))"
    by (simp add: tentative_end_eq list_all_dropWhile trim_def)
  have ve: "tentative_end vb (dropWhile is_ws v) None =
      (if list_all is_ws v then None else Some (vb + length (trim v)))"
    by (simp add: tentative_end_eq list_all_dropWhile trim_def)
  have "parse_kv ini =
     (let ini' = ini\<lparr>cursor := (if t < length (buf ini) then Suc t else t)\<rparr>
      in if list_all is_ws v then (Failure (MissingValue (line ini)), ini')
         else if list_all is_ws k then (Failure AssertionFailure, ini')
         else (Success, ini'\<lparr>properties := properties ini @
                [\<lparr>section_kv = section_ini ini,
                  key_kv = \<lparr>data = Some kb, length_s = int (length (trim k))\<rparr>,
                  value_kv = \<lparr>data = Some vb, length_s = int (length (trim v))\<rparr>\<rparr>]\<rparr>))"
    by (simp add: parse_kv_def s1 s2 s3 s4 ke ve Let_def)
  then show ?outcome
    by (simp add: Let_def ln_def [symmetric] k_def [symmetric] v_def [symmetric]
          t_def [symmetric] kb_def vb_def)
  have "take (length (trim k)) (drop kb (buf ini)) = trim k"
    unfolding d1 trim_def by (rule rstrip_prefix)
  then show ?key
    by (simp add: Let_def slice_text_def ln_def [symmetric] k_def [symmetric] kb_def)
  have "drop vb (buf ini) =
      dropWhile is_ws v @ dropWhile (\<lambda>c. \<not> is_eol c) (drop vb (buf ini))"
    using takeWhile_dropWhile_id [of "\<lambda>c. \<not> is_eol c" "drop vb (buf ini)"]
    by (simp only: segv)
  then have "take (length (trim v)) (drop vb (buf ini)) = trim v"
    unfolding trim_def by (metis rstrip_prefix)
  then show ?val
    by (simp add: Let_def slice_text_def ln_def [symmetric] k_def [symmetric]
          v_def [symmetric] vb_def)
  from s1 s2 s3 s4 show ?scan
    unfolding ke ve
    by (simp add: Let_def ln_def [symmetric] k_def [symmetric] v_def [symmetric]
          t_def [symmetric] kb_def vb_def)
qed

lemma takeWhile_no_equals:
  "CHR ''='' \<notin> set (takeWhile (\<lambda>c. \<not> is_eol c) xs) \<Longrightarrow>
   takeWhile (\<lambda>c. c \<noteq> CHR ''='' \<and> \<not> is_eol c) xs = takeWhile (\<lambda>c. \<not> is_eol c) xs"
  by (induction xs) (auto split: if_splits)

lemma parse_kv_no_equals:
  assumes "CHR ''='' \<notin> set (line_rest ini)"
  shows "fst (parse_kv ini) = Failure (MissingEquals (line ini)) \<or>
         fst (parse_kv ini) = Failure (MissingEqualsEOF (line ini))"
proof -
  define kb where "kb = cursor ini + length (takeWhile is_ws (drop (cursor ini) (buf ini)))"
  define xs where "xs = drop kb (buf ini)"
  have xs: "xs = dropWhile is_ws (drop (cursor ini) (buf ini))"
    by (simp add: xs_def kb_def dropWhile_eq_drop add.commute)
  have "takeWhile (\<lambda>c. \<not> is_eol c) xs = dropWhile is_ws (line_rest ini)"
    by (simp add: xs takeWhile_not_eol_dropWhile_ws line_rest_def)
  with assms have "CHR ''='' \<notin> set (takeWhile (\<lambda>c. \<not> is_eol c) xs)"
    by (metis set_dropWhileD)
  then have seg: "takeWhile (\<lambda>c. c \<noteq> CHR ''='' \<and> \<not> is_eol c) xs =
      takeWhile (\<lambda>c. \<not> is_eol c) xs"
    by (rule takeWhile_no_equals)
  define n where "n = length (takeWhile (\<lambda>c. \<not> is_eol c) xs)"
  have stop: "kb + n < length (buf ini) \<Longrightarrow> buf ini ! (kb + n) \<noteq> CHR ''=''"
  proof -
    assume lt: "kb + n < length (buf ini)"
    then have "n < length xs" by (simp add: xs_def)
    then have "is_eol (xs ! n)"
      unfolding n_def using nth_length_takeWhile [of "\<lambda>c. \<not> is_eol c" xs] by simp
    moreover from lt have "xs ! n = buf ini ! (kb + n)" by (simp add: xs_def)
    ultimately show ?thesis using eq_not_eol by metis
  qed
  have s1: "discard_whitespace ini = ini\<lparr>cursor := kb\<rparr>"
    by (simp add: discard_whitespace_eq kb_def)
  show ?thesis
    using stop
    by (simp add: parse_kv_def s1 read_key_eq xs_def [symmetric] seg n_def [symmetric] Let_def)
qed

lemma parse_kv_success_has_equals:
  "parse_kv ini = (Success, ini') \<Longrightarrow> CHR ''='' \<in> set (line_rest ini)"
  using parse_kv_no_equals [of ini] by fastforce

lemma trim_ends:
  "trim xs \<noteq> [] \<Longrightarrow> \<not> is_ws (hd (trim xs)) \<and> \<not> is_ws (last (trim xs))"
proof -
  assume ne: "trim xs \<noteq> []"
  define ys where "ys = dropWhile is_ws xs"
  have t: "trim xs = rev (dropWhile is_ws (rev ys))" by (simp add: trim_def rstrip_def ys_def)
  with ne have d: "dropWhile is_ws (rev ys) \<noteq> []" by simp
  then have "\<not> is_ws (hd (dropWhile is_ws (rev ys)))" by (rule hd_dropWhile)
  with d t have l: "\<not> is_ws (last (trim xs))" by (simp add: last_rev)
  from d have "\<not> list_all is_ws ys"
    by (metis dropWhile_eq_Nil_conv list_all_iff set_rev)
  then have "ys \<noteq> []" by auto
  then have "\<not> is_ws (hd ys)" unfolding ys_def by (rule hd_dropWhile)
  moreover have "hd (trim xs) = hd ys"
    using rstrip_prefix [of ys "[]"] ne \<open>ys \<noteq> []\<close>
    by (metis append_Nil2 hd_take length_greater_0_conv rstrip_def t trim_def ys_def)
  ultimately show ?thesis using l by simp
qed

lemma trim_nonempty: "(trim xs \<noteq> []) = (\<not> list_all is_ws xs)"
  by (simp add: trim_def rstrip_def list_all_iff dropWhile_eq_Nil_conv)
     (metis set_dropWhileD dropWhile_eq_Nil_conv hd_dropWhile hd_in_set)

lemma set_trim: "set (trim xs) \<subseteq> set xs"
  by (auto simp: trim_def rstrip_def dest!: set_dropWhileD)

lemma slice_text_takeWhile:
  "slice_text b \<lparr>data = Some p, length_s = int (length (takeWhile P (drop p b)))\<rparr> =
     takeWhile P (drop p b)"
  by (simp add: slice_text_def) (metis takeWhile_eq_take takeWhile_idem)

lemma parse_kv_effect:
  "section_ini (snd (parse_kv ini)) = section_ini ini \<and>
   line (snd (parse_kv ini)) = line ini \<and>
   (case fst (parse_kv ini) of
      Success \<Rightarrow> \<exists>kv. properties (snd (parse_kv ini)) = properties ini @ [kv] \<and>
                        section_kv kv = section_ini ini
    | Failure e \<Rightarrow> properties (snd (parse_kv ini)) = properties ini)"
  by (simp add: parse_kv_def discard_whitespace_eq read_key_eq read_value_eq Let_def
        split: option.split)

lemma parse_section_header_effect:
  "properties (snd (parse_section_header ini)) = properties ini \<and>
   line (snd (parse_section_header ini)) = line ini"
  by (simp add: parse_section_header_def section_loop_eq Let_def)

lemma dispatch_failure_properties:
  "dispatch ini = (Failure e, ini') \<Longrightarrow> properties ini' = properties ini"
  using parse_kv_effect [of ini] parse_section_header_effect [of ini]
  by (auto simp: dispatch_def Let_def discard_comment_eq split: if_splits)

lemma dispatch_success_properties:
  "dispatch ini = (Success, ini') \<Longrightarrow>
   properties ini' = properties ini \<or>
   (\<exists>kv. properties ini' = properties ini @ [kv] \<and> section_kv kv = section_ini ini \<and>
      buf ini ! cursor ini \<noteq> CHR ''['')"
  using parse_kv_effect [of ini] parse_section_header_effect [of ini]
  by (auto simp: dispatch_def Let_def discard_comment_eq split: if_splits)

lemma dispatch_section:
  "buf ini ! cursor ini \<noteq> CHR ''['' \<Longrightarrow> section_ini (snd (dispatch ini)) = section_ini ini"
  using parse_kv_effect [of ini]
  by (auto simp: dispatch_def Let_def discard_comment_eq split: if_splits)

lemma dispatch_kv:
  "\<not> is_eol (buf ini ! cursor ini) \<Longrightarrow> \<not> is_ws (buf ini ! cursor ini) \<Longrightarrow>
   buf ini ! cursor ini \<noteq> CHR '';'' \<Longrightarrow> buf ini ! cursor ini \<noteq> CHR ''['' \<Longrightarrow>
   dispatch ini = parse_kv ini"
  by (simp add: dispatch_def is_eol_def is_ws_def Let_def)

lemma dispatch_bracket:
  "buf ini ! cursor ini = CHR ''['' \<Longrightarrow> dispatch ini = parse_section_header ini"
  by (simp add: dispatch_def CR_def LF_def SPC_def TAB_def)

subsection \<open>Runs and traces\<close>

lemma parse_ini_success_step:
  "cursor ini < length (buf ini) \<Longrightarrow> dispatch ini = (Success, ini') \<Longrightarrow>
   parse_ini ini = parse_ini (ini'\<lparr>cursor := cursor ini' + 1\<rparr>)"
  by (subst parse_ini.simps) simp

lemma parse_ini_failure_step:
  "cursor ini < length (buf ini) \<Longrightarrow> dispatch ini = (Failure e, ini') \<Longrightarrow>
   parse_ini ini = (Failure e, ini')"
  by (subst parse_ini.simps) simp

lemma reaches_parse_ini: "reaches ini0 ini \<Longrightarrow> parse_ini ini0 = parse_ini ini"
  by (induction rule: reaches.induct) (simp_all add: parse_ini_success_step)

lemma reaches_buf: "reaches ini0 ini \<Longrightarrow> buf ini = buf ini0"
proof (induction rule: reaches.induct)
  case reaches_start
  show ?case by simp
next
  case (reaches_next ini ini')
  with dispatch_frame [of ini] show ?case by simp
qed

lemma reaches_properties: "reaches ini0 ini \<Longrightarrow> \<exists>ps. properties ini = properties ini0 @ ps"
proof (induction rule: reaches.induct)
  case reaches_start
  show ?case by simp
next
  case (reaches_next ini ini')
  with dispatch_success_properties [of ini ini'] show ?case by auto
qed

lemma reaches_front:
  assumes "cursor a < length (buf a)" and "dispatch a = (Success, a')"
    and "reaches (a'\<lparr>cursor := cursor a' + 1\<rparr>) c"
  shows "reaches a c"
  using assms(3)
proof (induction rule: reaches.induct)
  case reaches_start
  from reaches.reaches_next [OF reaches.reaches_start assms(1,2)] show ?case .
next
  case (reaches_next ini ini')
  then show ?case by (blast intro: reaches.reaches_next)
qed

lemma trace_success_step:
  "cursor ini < length (buf ini) \<Longrightarrow> dispatch ini = (Success, ini') \<Longrightarrow>
   trace ini = event_of ini ini' # trace (ini'\<lparr>cursor := cursor ini' + 1\<rparr>)"
  by (subst trace.simps) simp

lemma trace_failure_step:
  "cursor ini < length (buf ini) \<Longrightarrow> dispatch ini = (Failure e, ini') \<Longrightarrow> trace ini = []"
  by (subst trace.simps) simp

lemma trace_end: "\<not> cursor ini < length (buf ini) \<Longrightarrow> trace ini = []"
  by (subst trace.simps) simp

lemma parse_ini_end: "\<not> cursor ini < length (buf ini) \<Longrightarrow> parse_ini ini = (Success, ini)"
  by (subst parse_ini.simps) simp

lemma event_of_emitted:
  assumes "dispatch ini = (Success, ini')"
  shows "properties ini' = properties ini @ emitted [event_of ini ini']"
  using dispatch_success_properties [OF assms]
  by (auto simp: event_of_def)

lemma event_of_section:
  assumes "dispatch ini = (Success, ini')"
  shows "section_after (section_ini ini) [event_of ini ini'] = section_ini ini'"
  using dispatch_section [of ini] assms
  by (auto simp: event_of_def)

lemma event_of_section_kv:
  assumes "dispatch ini = (Success, ini')" and "event_of ini ini' = Emitted kv"
  shows "section_kv kv = section_ini ini"
  using dispatch_success_properties [OF assms(1)] assms(2)
  by (auto simp: event_of_def split: if_splits)

lemma emitted_Cons: "emitted (ev # es) = emitted [ev] @ emitted es"
  by (cases ev) simp_all

lemma section_after_Cons: "section_after s (ev # es) = section_after (section_after s [ev]) es"
  by (cases ev) simp_all

lemma properties_trace: "properties (snd (parse_ini ini)) = properties ini @ emitted (trace ini)"
proof (induction ini rule: parse_ini.induct)
  case (1 ini)
  show ?case
  proof (cases "cursor ini < length (buf ini)")
    case False
    then show ?thesis by (simp add: parse_ini_end trace_end)
  next
    case lt: True
    obtain r a where d: "dispatch ini = (r, a)" by (cases "dispatch ini")
    show ?thesis
    proof (cases r)
      case (Failure e)
      with lt d dispatch_failure_properties [of ini e a] show ?thesis
        by (simp add: parse_ini_failure_step trace_failure_step)
    next
      case Success
      let ?n = "a\<lparr>cursor := cursor a + 1\<rparr>"
      from lt d Success have "emitted (trace ini) = emitted [event_of ini a] @ emitted (trace ?n)"
        by (simp only: trace_success_step emitted_Cons [of _ "trace ?n"])
      with "1.IH" [OF lt d [symmetric] Success] lt d Success event_of_emitted [of ini a]
      show ?thesis
        by (simp add: parse_ini_success_step)
    qed
  qed
qed

lemma section_trace:
  "i < length (trace ini) \<Longrightarrow> trace ini ! i = Emitted kv \<Longrightarrow>
   section_kv kv = section_after (section_ini ini) (take i (trace ini))"
proof (induction ini arbitrary: i rule: trace.induct)
  case (1 ini)
  from "1.prems"(1) have lt: "cursor ini < length (buf ini)"
    using trace_end [of ini] by fastforce
  obtain r a where d: "dispatch ini = (r, a)" by (cases "dispatch ini")
  with lt "1.prems"(1) have r: "r = Success"
    using trace_failure_step [of ini] by (cases r) auto
  let ?n = "a\<lparr>cursor := cursor a + 1\<rparr>"
  from lt d r have t: "trace ini = event_of ini a # trace ?n"
    by (simp add: trace_success_step)
  show ?case
  proof (cases i)
    case 0
    with t "1.prems"(2) have "event_of ini a = Emitted kv" by simp
    with d r 0 show ?thesis by (simp add: event_of_section_kv)
  next
    case (Suc j)
    with t "1.prems" have "j < length (trace ?n)" and "trace ?n ! j = Emitted kv"
      by simp_all
    from "1.IH" [OF lt d [symmetric] r this]
    have "section_kv kv = section_after (section_ini a) (take j (trace ?n))" by simp
    also have "section_ini a = section_after (section_ini ini) [event_of ini a]"
      using d r by (simp add: event_of_section)
    finally have "section_kv kv =
        section_after (section_ini ini) (event_of ini a # take j (trace ?n))"
      by (simp only: section_after_Cons [of _ _ "take j (trace ?n)"])
    then show ?thesis by (simp add: t Suc)
  qed
qed

lemma header_event:
  assumes "dispatch ini = (Success, ini')" and "event_of ini ini' = Header h"
  shows "buf ini ! cursor ini = CHR ''['' \<and> data h = Some (Suc (cursor ini)) \<and>
         slice_text (buf ini) h =
           takeWhile (\<lambda>c. c \<noteq> CHR '']'') (drop (Suc (cursor ini)) (buf ini)) \<and>
         CHR '']'' \<in> set (drop (Suc (cursor ini)) (buf ini))"
proof -
  from assms(2) have b: "buf ini ! cursor ini = CHR ''[''" and h: "h = section_ini ini'"
    by (auto simp: event_of_def split: if_splits)
  from b assms(1) have "parse_section_header ini = (Success, ini')"
    by (simp add: dispatch_bracket)
  with b h slice_text_takeWhile [of "buf ini" "Suc (cursor ini)" "\<lambda>c. c \<noteq> CHR '']''"]
  show ?thesis
    by (auto simp: parse_section_header_def section_loop_eq Let_def split: if_splits)
qed

lemma header_trace:
  "i < length (trace ini) \<Longrightarrow> trace ini ! i = Header h \<Longrightarrow>
   \<exists>p. data h = Some (Suc p) \<and> p < length (buf ini) \<and> buf ini ! p = CHR ''['' \<and>
       CHR '']'' \<in> set (drop (Suc p) (buf ini)) \<and>
       slice_text (buf ini) h = takeWhile (\<lambda>c. c \<noteq> CHR '']'') (drop (Suc p) (buf ini))"
proof (induction ini arbitrary: i rule: trace.induct)
  case (1 ini)
  from "1.prems"(1) have lt: "cursor ini < length (buf ini)"
    using trace_end [of ini] by fastforce
  obtain r a where d: "dispatch ini = (r, a)" by (cases "dispatch ini")
  with lt "1.prems"(1) have r: "r = Success"
    using trace_failure_step [of ini] by (cases r) auto
  let ?n = "a\<lparr>cursor := cursor a + 1\<rparr>"
  from lt d r have t: "trace ini = event_of ini a # trace ?n"
    by (simp add: trace_success_step)
  show ?case
  proof (cases i)
    case 0
    with t "1.prems"(2) have "event_of ini a = Header h" by simp
    with d r lt header_event [of ini a h] show ?thesis by blast
  next
    case (Suc j)
    with t "1.prems" have "j < length (trace ?n)" and "trace ?n ! j = Header h"
      by simp_all
    from "1.IH" [OF lt d [symmetric] r this] dispatch_frame [of ini] d
    show ?thesis by simp
  qed
qed

lemma parse_ini_failure_origin:
  assumes "parse_ini ini0 = (Failure e, ini')"
  shows "\<exists>ini. reaches ini0 ini \<and> cursor ini < length (buf ini) \<and>
           dispatch ini = (Failure e, ini') \<and>
           properties ini' = properties ini \<and>
           (\<exists>ps. properties ini = properties ini0 @ ps)"
  using assms
proof (induction ini0 rule: parse_ini.induct)
  case (1 ini0)
  show ?case
  proof (cases "cursor ini0 < length (buf ini0)")
    case False
    with "1.prems" show ?thesis by (simp add: parse_ini.simps [of ini0])
  next
    case lt: True
    obtain r a where d: "dispatch ini0 = (r, a)" by (cases "dispatch ini0")
    show ?thesis
    proof (cases r)
      case (Failure e1)
      with lt d "1.prems" have "e1 = e" "a = ini'"
        by (simp_all add: parse_ini_failure_step)
      with lt d Failure dispatch_failure_properties [of ini0 e ini'] show ?thesis
        by (intro exI [of _ ini0]) (simp add: reaches_start)
    next
      case Success
      let ?n = "a\<lparr>cursor := cursor a + 1\<rparr>"
      from lt d Success "1.prems" have "parse_ini ?n = (Failure e, ini')"
        by (simp add: parse_ini_success_step)
      with "1.IH" [OF lt d [symmetric] Success] lt d Success
      obtain ini where r: "reaches ?n ini" and c: "cursor ini < length (buf ini)"
        and f: "dispatch ini = (Failure e, ini')" and p: "properties ini' = properties ini"
        by blast
      from lt d Success r have "reaches ini0 ini" by (simp add: reaches_front)
      with c f p reaches_properties [of ini0 ini] show ?thesis by blast
    qed
  qed
qed

subsection \<open>The sub-routines on their own\<close>

text \<open>
  What one call of \<^verbatim>\<open>parse_kv\<close> does with the text from the cursor on, whatever the outer
  loop did before. A line whose text before the equals sign is blank appends nothing:
  the call reports the missing value if the value is blank too and stops at
  \<^verbatim>\<open>assert(key_end)\<close> otherwise.
\<close>

lemma parse_kv_empty_key:
  assumes "CHR ''='' \<in> set (line_rest ini)"
    and "list_all is_ws (key_part (line_rest ini))"
  shows "fst (parse_kv ini) =
           (if list_all is_ws (value_part (line_rest ini))
            then Failure (MissingValue (line ini)) else Failure AssertionFailure) \<and>
         properties (snd (parse_kv ini)) = properties ini"
  using assms by (simp add: parse_kv_line(1) Let_def)

text \<open>
  The key loop ends at the equals sign; \<^verbatim>\<open>value_end\<close> stays null exactly when the text
  after it is blank, and otherwise \<^verbatim>\<open>value_begin\<close> and \<^verbatim>\<open>value_end\<close> enclose that text
  without its leading and trailing spaces and tabs.
\<close>

lemma parse_kv_value_scan:
  assumes "CHR ''='' \<in> set (line_rest ini)"
  shows "\<exists>ini2 key_end.
     read_key (discard_whitespace ini) False None = Inr (ini2, True, key_end) \<and>
     (let v = value_part (line_rest ini);
          ini3 = discard_whitespace ini2;
          value_begin = cursor ini3;
          value_end = snd (snd (read_value ini3 False None))
      in (list_all is_ws v \<longrightarrow>
            value_end = None \<and>
            fst (parse_kv ini) = Failure (MissingValue (line ini)) \<and>
            properties (snd (parse_kv ini)) = properties ini) \<and>
         (\<not> list_all is_ws v \<longrightarrow>
            (\<exists>e. value_end = Some e \<and>
               slice_text (buf ini)
                 \<lparr>data = Some value_begin, length_s = int e - int value_begin\<rparr> = trim v \<and>
               (key_end \<noteq> None \<longrightarrow>
                  fst (parse_kv ini) = Success \<and>
                  value_kv (last (properties (snd (parse_kv ini)))) =
                    \<lparr>data = Some value_begin, length_s = int e - int value_begin\<rparr>)) \<and>
            trim v \<noteq> [] \<and>
            (\<forall>l. fst (parse_kv ini) \<noteq> Failure (MissingValue l))))"
proof -
  define k where "k = key_part (line_rest ini)"
  define v where "v = value_part (line_rest ini)"
  define vb where "vb = Suc (cursor ini + length k) + length (takeWhile is_ws v)"
  note pk = parse_kv_line [OF assms, unfolded Let_def, folded k_def v_def, folded vb_def]
  let ?ini2 = "ini\<lparr>cursor := Suc (cursor ini + length k)\<rparr>"
  from pk(4) obtain key_end where
    rk: "read_key (discard_whitespace ini) False None = Inr (?ini2, True, key_end)"
    and ke: "(key_end = None) = list_all is_ws k"
    and dw: "discard_whitespace ?ini2 = ini\<lparr>cursor := vb\<rparr>"
    and rv: "snd (snd (read_value (ini\<lparr>cursor := vb\<rparr>) False None)) =
      (if list_all is_ws v then None else Some (vb + length (trim v)))"
    by auto
  have "list_all is_ws v \<longrightarrow>
      fst (parse_kv ini) = Failure (MissingValue (line ini)) \<and>
      properties (snd (parse_kv ini)) = properties ini"
    by (simp add: pk(1))
  moreover have "\<not> list_all is_ws v \<longrightarrow> (\<forall>l. fst (parse_kv ini) \<noteq> Failure (MissingValue l))"
    by (simp add: pk(1))
  moreover have "\<not> list_all is_ws v \<longrightarrow> key_end \<noteq> None \<longrightarrow>
      fst (parse_kv ini) = Success \<and>
      value_kv (last (properties (snd (parse_kv ini)))) =
        \<lparr>data = Some vb, length_s = int (vb + length (trim v)) - int vb\<rparr>"
    using ke by (simp add: pk(1))
  moreover have "slice_text (buf ini)
      \<lparr>data = Some vb, length_s = int (vb + length (trim v)) - int vb\<rparr> = trim v"
    using pk(3) by simp
  ultimately show ?thesis
    unfolding Let_def v_def [symmetric]
    using rk dw rv trim_nonempty [of v]
    by (intro exI [of _ ?ini2] exI [of _ key_end]) simp
qed

text \<open>
  The slices of an appended record view the text before and after the first equals sign
  of the text from the cursor on, without leading and trailing spaces and tabs.
\<close>

lemma parse_kv_slices_trimmed:
  assumes "parse_kv ini = (Success, ini')"
  shows "(let k = key_part (line_rest ini); v = value_part (line_rest ini) in
          line_rest ini = k @ CHR ''='' # v \<and>
          (\<exists>kv. properties ini' = properties ini @ [kv] \<and>
             slice_text (buf ini) (key_kv kv) = trim k \<and>
             slice_text (buf ini) (value_kv kv) = trim v) \<and>
          trim k \<noteq> [] \<and> \<not> is_ws (hd (trim k)) \<and> \<not> is_ws (last (trim k)) \<and>
          CHR ''='' \<notin> set (trim k) \<and>
          trim v \<noteq> [] \<and> \<not> is_ws (hd (trim v)) \<and> \<not> is_ws (last (trim v)))"
proof -
  define k where "k = key_part (line_rest ini)"
  define v where "v = value_part (line_rest ini)"
  from assms have eq: "CHR ''='' \<in> set (line_rest ini)"
    by (rule parse_kv_success_has_equals)
  then have split: "line_rest ini = k @ CHR ''='' # v"
    unfolding k_def v_def line_rest_def by (rule line_split(1))
  note pk = parse_kv_line [OF eq, unfolded Let_def, folded k_def v_def]
  from assms pk(1) have kne: "\<not> list_all is_ws k" and vne: "\<not> list_all is_ws v"
    by (auto split: if_splits)
  with assms pk have "\<exists>kv. properties ini' = properties ini @ [kv] \<and>
             slice_text (buf ini) (key_kv kv) = trim k \<and>
             slice_text (buf ini) (value_kv kv) = trim v"
    by auto
  moreover have "CHR ''='' \<notin> set k"
    unfolding k_def key_part_def by (auto dest: set_takeWhileD)
  then have "CHR ''='' \<notin> set (trim k)" using set_trim by blast
  moreover from kne vne have "trim k \<noteq> []" "trim v \<noteq> []" by (simp_all add: trim_nonempty)
  ultimately show ?thesis
    unfolding Let_def k_def [symmetric] v_def [symmetric]
    using split trim_ends [of k] trim_ends [of v] by blast
qed

text \<open>
  A header without a closing bracket fails the parse with the line counter of the state
  in which its bracket was dispatched.
\<close>

lemma unterminated_section_counter:
  assumes "reaches (init_ini ini_zero b) ini"
    and "cursor ini < length b"
    and "b ! cursor ini = CHR ''[''"
    and "CHR '']'' \<notin> set (drop (Suc (cursor ini)) b)"
  shows "fst (main_parse b) = Failure (UnterminatedSection (line ini))"
proof -
  from assms(1) have b: "buf ini = b"
    using reaches_buf by (fastforce simp: init_ini_def)
  with assms(3) have "dispatch ini = parse_section_header ini"
    by (simp add: dispatch_bracket)
  with assms(4) b have "fst (dispatch ini) = Failure (UnterminatedSection (line ini))"
    by (simp add: parse_section_header_def section_loop_eq Let_def)
  then obtain ini' where "dispatch ini = (Failure (UnterminatedSection (line ini)), ini')"
    by (cases "dispatch ini") simp
  with assms(2) b have "parse_ini ini = (Failure (UnterminatedSection (line ini)), ini')"
    by (simp add: parse_ini_failure_step)
  with reaches_parse_ini [OF assms(1)] show ?thesis
    by (simp add: main_parse_def)
qed

section \<open>The claims\<close>

text \<open>
  C1. The buffer \<^verbatim>\<open>[server]\nhost = localhost\nport = 8080\n\<close> is claimed to yield the
  records (server, host, localhost) and (server, port, 8080). In the code the value loop
  of \<^verbatim>\<open>parse_kv\<close> steps past the line end of the \<^verbatim>\<open>host\<close> line and the outer loop
  advances once more, so the \<^verbatim>\<open>p\<close> of \<^verbatim>\<open>port\<close> is never dispatched: the parse succeeds
  with the records (server, host, localhost) and (server, ort, 8080), and the line
  counter ends at 2 although three line ends were passed.
\<close>

theorem scenario_server_loses_first_key_byte:
  "fst (main_parse ''[server]\<newline>host = localhost\<newline>port = 8080\<newline>'') = Success \<and>
   records ''[server]\<newline>host = localhost\<newline>port = 8080\<newline>'' =
     [(''server'', ''host'', ''localhost''), (''server'', ''ort'', ''8080'')] \<and>
   line (snd (main_parse ''[server]\<newline>host = localhost\<newline>port = 8080\<newline>'')) = 2"
  by code_simp

text \<open>
  C2. On a successful parse the number of records is claimed to equal the number of
  valid \<^verbatim>\<open>key = value\<close> lines, comment lines contributing none. The buffer
  \<^verbatim>\<open>a=b\n;c=d\n\<close> has one key/value line and one comment line. After the first line
  the cursor stands two bytes past the line end, so the \<^verbatim>\<open>;\<close> is never dispatched and
  the text of the comment is parsed as a key/value line: the parse succeeds with two
  records, the second one taken from the comment.
\<close>

theorem comment_line_after_kv_emits_record:
  "fst (main_parse ''a=b\<newline>;c=d\<newline>'') = Success \<and>
   records ''a=b\<newline>;c=d\<newline>'' = [([], ''a'', ''b''), ([], ''c'', ''d'')]"
  by code_simp

text \<open>
  C3. A key/value line with an empty key is claimed to succeed with a key slice of length
  zero. On the buffer \<^verbatim>\<open>=value\<close> the key loop ends at once, \<^verbatim>\<open>key_end\<close> is still null when
  the value has been read, and the code breaks its own \<^verbatim>\<open>assert(key_end)\<close>: the program
  is aborted and no record is appended. A missing value, the sibling case, is reported
  with a message and \<^verbatim>\<open>return -1\<close>; a missing key has no such test.
\<close>

theorem empty_key_fails_assertion:
  "fst (parse_kv (init_ini ini_zero ''=value'')) = Failure AssertionFailure \<and>
   properties (snd (parse_kv (init_ini ini_zero ''=value''))) = [] \<and>
   fst (main_parse ''=value'') = Failure AssertionFailure \<and>
   records ''=value'' = []"
  by code_simp

text \<open>
  C4. A failed parse is claimed to leave no record of the lines parsed before the error
  visible to the caller. In the code the parse stops at the first dispatch that fails and
  returns its error, and nothing removes the records appended before: \<^verbatim>\<open>parse_ini\<close>
  fails with an error exactly when the loop reaches a state whose dispatch fails with that
  error, and the record sequence of the failed parser is the one of that state, holding
  every record emitted before the error.
\<close>

theorem failed_parse_keeps_earlier_records:
  "(parse_ini ini0 = (Failure e, ini')) =
     (\<exists>ini. reaches ini0 ini \<and> cursor ini < length (buf ini) \<and>
        dispatch ini = (Failure e, ini') \<and>
        properties ini' = properties ini \<and>
        (\<exists>ps. properties ini = properties ini0 @ ps))"
proof
  assume "parse_ini ini0 = (Failure e, ini')"
  then show "\<exists>ini. reaches ini0 ini \<and> cursor ini < length (buf ini) \<and>
        dispatch ini = (Failure e, ini') \<and>
        properties ini' = properties ini \<and>
        (\<exists>ps. properties ini = properties ini0 @ ps)"
    by (rule parse_ini_failure_origin)
next
  assume "\<exists>ini. reaches ini0 ini \<and> cursor ini < length (buf ini) \<and>
        dispatch ini = (Failure e, ini') \<and>
        properties ini' = properties ini \<and>
        (\<exists>ps. properties ini = properties ini0 @ ps)"
  then obtain ini where "reaches ini0 ini" and "cursor ini < length (buf ini)"
    and "dispatch ini = (Failure e, ini')"
    by blast
  then show "parse_ini ini0 = (Failure e, ini')"
    by (simp add: reaches_parse_ini parse_ini_failure_step)
qed

theorem failed_parse_keeps_earlier_records_witness:
  "\<exists>ini. reaches (init_ini ini_zero ''a=b\<newline>\<newline>key\<newline>'') ini \<and>
     cursor ini < length (buf ini) \<and>
     dispatch ini = (Failure (MissingEquals 1), snd (main_parse ''a=b\<newline>\<newline>key\<newline>'')) \<and>
     properties (snd (main_parse ''a=b\<newline>\<newline>key\<newline>'')) = properties ini \<and>
     map (kv_text ''a=b\<newline>\<newline>key\<newline>'') (properties ini) = [([], ''a'', ''b'')]"
proof -
  let ?b = "''a=b\<newline>\<newline>key\<newline>''"
  have "fst (main_parse ?b) = Failure (MissingEquals 1)" by code_simp
  then have f: "parse_ini (init_ini ini_zero ?b) = (Failure (MissingEquals 1), snd (main_parse ?b))"
    by (metis main_parse_def prod.collapse)
  have r: "map (kv_text ?b) (properties (snd (main_parse ?b))) = [([], ''a'', ''b'')]"
    by code_simp
  from failed_parse_keeps_earlier_records [THEN iffD1, OF f] r show ?thesis
    by auto
qed

theorem failed_parse_retains_record:
  "fst (main_parse ''a=b\<newline>\<newline>key\<newline>'') = Failure (MissingEquals 1) \<and>
   records ''a=b\<newline>\<newline>key\<newline>'' = [([], ''a'', ''b'')]"
  by code_simp

text \<open>
  C5. Every emitted record carries the slice captured by the most recent section header
  parsed before it, and the empty slice of the initial parser state if no header has been
  parsed: the records of a parse are the records of its trace, and the section of the
  record emitted by iteration \<open>i\<close> is the section in force after the iterations before
  it, starting from the section of the initial state (\<open>data = None\<close>, \<open>length_s = 0\<close>
  for the parser \<^verbatim>\<open>main\<close> sets up). The slice of a header event views the bytes between
  a \<^verbatim>\<open>[\<close> of the buffer and the first \<^verbatim>\<open>]\<close> after it.
\<close>

theorem records_carry_current_section:
  "properties (snd (parse_ini ini)) = properties ini @ emitted (trace ini) \<and>
   (\<forall>i kv. i < length (trace ini) \<and> trace ini ! i = Emitted kv \<longrightarrow>
      section_kv kv = section_after (section_ini ini) (take i (trace ini))) \<and>
   (\<forall>i h. i < length (trace ini) \<and> trace ini ! i = Header h \<longrightarrow>
      (\<exists>p. data h = Some (Suc p) \<and> p < length (buf ini) \<and> buf ini ! p = CHR ''['' \<and>
         CHR '']'' \<in> set (drop (Suc p) (buf ini)) \<and>
         slice_text (buf ini) h = takeWhile (\<lambda>c. c \<noteq> CHR '']'') (drop (Suc p) (buf ini)))) \<and>
   section_ini (init_ini ini_zero b) = \<lparr>data = None, length_s = 0\<rparr>"
proof -
  have "section_ini (init_ini ini_zero b) = \<lparr>data = None, length_s = 0\<rparr>"
    by (simp add: init_ini_def ini_zero_def)
  with properties_trace [of ini] section_trace [of _ ini] header_trace [of _ ini]
  show ?thesis by blast
qed

theorem records_carry_current_section_witness:
  "(\<exists>kv. trace (init_ini ini_zero ''k=v\<newline>\<newline>[db]\<newline>a=1'') ! 0 = Emitted kv \<and>
      section_kv kv = \<lparr>data = None, length_s = 0\<rparr>) \<and>
   (\<exists>kv. trace (init_ini ini_zero ''k=v\<newline>\<newline>[db]\<newline>a=1'') ! 3 = Emitted kv \<and>
      slice_text ''k=v\<newline>\<newline>[db]\<newline>a=1'' (section_kv kv) = ''db'') \<and>
   records ''k=v\<newline>\<newline>[db]\<newline>a=1'' = [([], ''k'', ''v''), (''db'', ''a'', ''1'')]"
proof -
  let ?b = "''k=v\<newline>\<newline>[db]\<newline>a=1''"
  let ?ini = "init_ini ini_zero ?b"
  let ?kv0 = "\<lparr>section_kv = \<lparr>data = None, length_s = 0\<rparr>,
      key_kv = \<lparr>data = Some 0, length_s = 1\<rparr>, value_kv = \<lparr>data = Some 2, length_s = 1\<rparr>\<rparr>"
  let ?kv1 = "\<lparr>section_kv = \<lparr>data = Some 6, length_s = 2\<rparr>,
      key_kv = \<lparr>data = Some 10, length_s = 1\<rparr>, value_kv = \<lparr>data = Some 12, length_s = 1\<rparr>\<rparr>"
  have t: "trace ?ini = [Emitted ?kv0, Header \<lparr>data = Some 6, length_s = 2\<rparr>, Skipped, Emitted ?kv1]"
    by code_simp
  have s: "section_ini ?ini = \<lparr>data = None, length_s = 0\<rparr>"
    by (simp add: init_ini_def ini_zero_def)
  have db: "slice_text ?b \<lparr>data = Some 6, length_s = 2\<rparr> = ''db''"
    by (simp add: slice_text_def)
  from records_carry_current_section [of ?ini]
  have all: "\<forall>i kv. i < length (trace ?ini) \<and> trace ?ini ! i = Emitted kv \<longrightarrow>
      section_kv kv = section_after (section_ini ?ini) (take i (trace ?ini))"
    by blast
  from all [rule_format, of 0 ?kv0]
  have a0: "section_kv ?kv0 = \<lparr>data = None, length_s = 0\<rparr>"
    unfolding t s by simp
  from all [rule_format, of 3 ?kv1]
  have "section_kv ?kv1 = section_after \<lparr>data = None, length_s = 0\<rparr>
      (take 3 [Emitted ?kv0, Header \<lparr>data = Some 6, length_s = 2\<rparr>, Skipped, Emitted ?kv1])"
    unfolding t s by simp
  then have a3: "slice_text ?b (section_kv ?kv1) = ''db''"
    using db by simp
  have r: "records ?b = [([], ''k'', ''v''), (''db'', ''a'', ''1'')]"
    by code_simp
  from a0 a3 r show ?thesis
    unfolding t by simp
qed

text \<open>
  C6. An unterminated section header is claimed to fail the parse with
  \<open>UnterminatedSection\<close> at the line at which the header began. The parse does fail so,
  and for the buffer \<^verbatim>\<open>[incomplete\nkey=value\<close> at line 1. But the line reported is the
  parser's line counter, which has missed the line end of every key/value line before
  the header: in the buffer \<^verbatim>\<open>a=b\n [x\<close> the \<^verbatim>\<open>[\<close> at offset 5 stands on line 2 of the
  text and the error reports line 1.
\<close>

theorem unterminated_section_reports_stale_line:
  "fst (main_parse ''[incomplete\<newline>key=value'') = Failure (UnterminatedSection 1) \<and>
   fst (main_parse ''a=b\<newline> [x'') = Failure (UnterminatedSection 1) \<and>
   ''a=b\<newline> [x'' ! 5 = CHR ''['' \<and>
   text_line ''a=b\<newline> [x'' 5 = 2"
  by code_simp

text \<open>
  C7. A key/value line with nothing but spaces and tabs after its equals sign is claimed
  to fail the parse with \<open>MissingValue\<close> at the current line, and a line with a value to
  succeed. The buffer \<^verbatim>\<open>key =   \n\<close> does fail so at line 1. In the buffer
  \<^verbatim>\<open>a=b\n k=\n\<close> the line without a value is line 2 of the text (its \<^verbatim>\<open>k\<close> stands at
  offset 5) and the error reports line 1; in \<^verbatim>\<open>a=b\n=\n\<close> the equals sign of the second
  line is never dispatched and the parse succeeds; in \<^verbatim>\<open>=x\<close> a value follows the equals
  sign and the parse is aborted at \<^verbatim>\<open>assert(key_end)\<close>.
\<close>

theorem missing_value_line_and_outcome_diverge:
  "fst (main_parse ''key =   \<newline>'') = Failure (MissingValue 1) \<and>
   fst (main_parse ''a=b\<newline> k=\<newline>'') = Failure (MissingValue 1) \<and>
   ''a=b\<newline> k=\<newline>'' ! 5 = CHR ''k'' \<and>
   text_line ''a=b\<newline> k=\<newline>'' 5 = 2 \<and>
   fst (main_parse ''a=b\<newline>=\<newline>'') = Success \<and>
   records ''a=b\<newline>=\<newline>'' = [([], ''a'', ''b'')] \<and>
   fst (main_parse ''=x'') = Failure AssertionFailure"
  by code_simp

text \<open>
  C8. The key slice of every record is claimed to view the key text of its line without
  leading and trailing spaces and tabs, and the value slice the value text. The line
  \<^verbatim>\<open>  name = value  \<close> alone yields key \<^verbatim>\<open>name\<close> and value \<^verbatim>\<open>value\<close>. A key/value line
  that follows another one is entered one byte late: in the buffer
  \<^verbatim>\<open>a=1\nname = value\<close> the record of the second line has the key \<^verbatim>\<open>ame\<close>.
\<close>

theorem later_line_key_loses_first_byte:
  "records ''  name = value  '' = [([], ''name'', ''value'')] \<and>
   fst (main_parse ''a=1\<newline>name = value'') = Success \<and>
   records ''a=1\<newline>name = value'' = [([], ''a'', ''1''), ([], ''ame'', ''value'')]"
  by code_simp

text \<open>
  C9. When the line of a key/value pair ends with \<^verbatim>\<open>\r\<close> or \<^verbatim>\<open>\n\<close> at offset \<open>t\<close>
  (and not with the end of the buffer), \<^verbatim>\<open>parse_kv\<close> returns with the cursor at
  \<open>t + 1\<close> and the line counter unchanged. If the call was dispatched by the outer loop
  and succeeded, the loop goes on at offset \<open>t + 2\<close> with the same line counter: the byte
  after the line end is never dispatched and the line end is never counted.
\<close>

theorem parse_kv_oversteps_line_end:
  assumes "CHR ''='' \<in> set (line_rest ini)"
    and "t = cursor ini + length (line_rest ini)"
    and "t < length (buf ini)"
  shows "is_eol (buf ini ! t) \<and>
         cursor (snd (parse_kv ini)) = t + 1 \<and>
         line (snd (parse_kv ini)) = line ini \<and>
         (\<not> is_ws (buf ini ! cursor ini) \<and> buf ini ! cursor ini \<noteq> CHR '';'' \<and>
          buf ini ! cursor ini \<noteq> CHR ''['' \<and> fst (parse_kv ini) = Success \<longrightarrow>
            parse_ini ini = parse_ini ((snd (parse_kv ini))\<lparr>cursor := t + 2\<rparr>) \<and>
            line ((snd (parse_kv ini))\<lparr>cursor := t + 2\<rparr>) = line ini)"
proof -
  define rest where "rest = drop (cursor ini) (buf ini)"
  have lr: "line_rest ini = takeWhile (\<lambda>c. \<not> is_eol c) rest"
    by (simp add: line_rest_def rest_def)
  from assms(1) have "line_rest ini \<noteq> []" by auto
  then have "rest \<noteq> []" unfolding lr by auto
  then have lt: "cursor ini < length (buf ini)" by (simp add: rest_def)
  from \<open>line_rest ini \<noteq> []\<close> have "\<not> is_eol (hd rest)"
    unfolding lr by (cases rest) (auto split: if_splits)
  with \<open>rest \<noteq> []\<close> lt have first: "\<not> is_eol (buf ini ! cursor ini)"
    by (simp add: rest_def hd_drop_conv_nth)
  from assms(2,3) lt have "length (line_rest ini) < length rest"
    by (simp add: rest_def)
  then have "is_eol (rest ! length (line_rest ini))"
    unfolding lr using nth_length_takeWhile [of "\<lambda>c. \<not> is_eol c" rest] by simp
  moreover from assms(2,3) lt have "rest ! length (line_rest ini) = buf ini ! t"
    by (simp add: rest_def)
  ultimately have eol: "is_eol (buf ini ! t)" by simp
  from assms have c: "cursor (snd (parse_kv ini)) = t + 1"
    and l: "line (snd (parse_kv ini)) = line ini"
    by (simp_all add: parse_kv_line(1) Let_def)
  have "parse_ini ini = parse_ini ((snd (parse_kv ini))\<lparr>cursor := t + 2\<rparr>)"
    if "\<not> is_ws (buf ini ! cursor ini)" "buf ini ! cursor ini \<noteq> CHR '';''"
       "buf ini ! cursor ini \<noteq> CHR ''[''" "fst (parse_kv ini) = Success"
  proof -
    from that first have "dispatch ini = parse_kv ini" by (simp add: dispatch_kv)
    with that(4) have "dispatch ini = (Success, snd (parse_kv ini))"
      by (metis prod.collapse)
    from parse_ini_success_step [OF lt this] c show ?thesis by simp
  qed
  with eol c l show ?thesis by simp
qed

theorem parse_kv_oversteps_line_end_witness:
  "is_eol (''a=1\<newline>b=2'' ! 3) \<and>
   cursor (snd (parse_kv (init_ini ini_zero ''a=1\<newline>b=2''))) = 4 \<and>
   line (snd (parse_kv (init_ini ini_zero ''a=1\<newline>b=2''))) = 1 \<and>
   parse_ini (init_ini ini_zero ''a=1\<newline>b=2'') =
     parse_ini ((snd (parse_kv (init_ini ini_zero ''a=1\<newline>b=2'')))\<lparr>cursor := 5\<rparr>)"
proof -
  let ?ini = "init_ini ini_zero ''a=1\<newline>b=2''"
  have ok: "fst (parse_kv ?ini) = Success" by code_simp
  have lr: "line_rest ?ini = ''a=1''" by code_simp
  have b: "buf ?ini = ''a=1\<newline>b=2''" and c: "cursor ?ini = 0" and l: "line ?ini = 1"
    by (simp_all add: init_ini_def ini_zero_def)
  from parse_kv_oversteps_line_end [of ?ini 3] ok show ?thesis
    by (simp add: lr b c l is_ws_def SPC_def TAB_def)
qed

text \<open>
  C10. \<^verbatim>\<open>parse_section_header\<close> scans to the first \<^verbatim>\<open>]\<close> after the bracket at the
  cursor, whatever bytes stand in between: the line counter and the records are left as
  they were, the cursor ends on the \<^verbatim>\<open>]\<close> (or at the end of the buffer), the captured
  slice views every byte before that \<^verbatim>\<open>]\<close>, line ends included, and the call fails
  only if no \<^verbatim>\<open>]\<close> follows at all.
\<close>

theorem section_header_scans_to_first_bracket:
  "(let rest = drop (Suc (cursor ini)) (buf ini);
        name = takeWhile (\<lambda>c. c \<noteq> CHR '']'') rest;
        r = parse_section_header ini
    in line (snd r) = line ini \<and> properties (snd r) = properties ini \<and>
       cursor (snd r) = Suc (cursor ini) + length name \<and>
       (if CHR '']'' \<in> set rest
        then fst r = Success \<and>
             section_ini (snd r) =
               \<lparr>data = Some (Suc (cursor ini)), length_s = int (length name)\<rparr> \<and>
             slice_text (buf ini) (section_ini (snd r)) = name
        else fst r = Failure (UnterminatedSection (line ini)) \<and>
             section_ini (snd r) = section_ini ini))"
  using slice_text_takeWhile [of "buf ini" "Suc (cursor ini)" "\<lambda>c. c \<noteq> CHR '']''"]
  by (simp add: parse_section_header_def section_loop_eq Let_def)

theorem section_header_scans_to_first_bracket_witness:
  "fst (parse_section_header (init_ini ini_zero ''[a\<newline>b]\<newline>x=1'')) = Success \<and>
   line (snd (parse_section_header (init_ini ini_zero ''[a\<newline>b]\<newline>x=1''))) = 1 \<and>
   cursor (snd (parse_section_header (init_ini ini_zero ''[a\<newline>b]\<newline>x=1''))) = 4 \<and>
   slice_text ''[a\<newline>b]\<newline>x=1''
     (section_ini (snd (parse_section_header (init_ini ini_zero ''[a\<newline>b]\<newline>x=1'')))) =
     ''a\<newline>b''"
  using section_header_scans_to_first_bracket [of "init_ini ini_zero ''[a\<newline>b]\<newline>x=1''"]
  by (simp add: init_ini_def ini_zero_def Let_def slice_text_def)

end
